theory Spec2Isabelle
  imports Main "HOL-Library.Sublist"
begin

section \<open>JavaScript strings\<close>

text \<open>
  A JavaScript string is a sequence of UTF-16 code units. A code unit is modelled as a
  natural number; \<open>js\<close> turns an ASCII literal into its code units.
\<close>

type_synonym jsstring = "nat list"

definition js :: "string \<Rightarrow> jsstring" where
  "js s = map of_char s"

text \<open>\<^verbatim>\<open>s.replace(/[\n\r\t]/g, '')\<close>: every line feed (10), carriage return (13) and
  tab (9) is deleted.\<close>

definition remove_nrt :: "jsstring \<Rightarrow> jsstring" where
  "remove_nrt s = filter (\<lambda>c. c \<noteq> 10 \<and> c \<noteq> 13 \<and> c \<noteq> 9) s"

text \<open>The code units that \<^verbatim>\<open>String.prototype.trim\<close> strips: ECMAScript WhiteSpace and
  LineTerminator.\<close>

definition is_js_whitespace :: "nat \<Rightarrow> bool" where
  "is_js_whitespace c \<longleftrightarrow>
     c \<in> set [9, 10, 11, 12, 13, 32, 160, 5760, 8192, 8193, 8194, 8195, 8196, 8197, 8198,
                8199, 8200, 8201, 8202, 8232, 8233, 8239, 8287, 12288, 65279]"

definition trim :: "jsstring \<Rightarrow> jsstring" where
  "trim s = rev (dropWhile is_js_whitespace (rev (dropWhile is_js_whitespace s)))"

definition startsWith :: "jsstring \<Rightarrow> jsstring \<Rightarrow> bool" where
  "startsWith s p \<longleftrightarrow> take (length p) s = p"

text \<open>\<^verbatim>\<open>s.replace(/DX/g, r)\<close> for a replacement \<open>r\<close> without \<^verbatim>\<open>$\<close> patterns: the
  string is scanned from the left; where the two code units D (68), X (88) stand, the
  replacement is emitted and the scan goes on behind them.\<close>

fun replace_DX :: "jsstring \<Rightarrow> jsstring \<Rightarrow> jsstring" where
  "replace_DX r (a # b # s) =
     (if a = 68 \<and> b = 88 then r @ replace_DX r s else a # replace_DX r (b # s))"
| "replace_DX r s = s"

section \<open>The DOM\<close>

text \<open>
  A DOM tree: elements with their local name, attribute list and child nodes, text nodes and
  comment nodes. A node inside a tree is referred to by its path, the list of child indices
  from the root.
\<close>

datatype node =
    Element jsstring "(jsstring \<times> jsstring) list" "node list"
  | Text jsstring
  | Comment jsstring

fun nodeType :: "node \<Rightarrow> nat" where
  "nodeType (Element t as cs) = 1"
| "nodeType (Text d) = 3"
| "nodeType (Comment d) = 8"

definition TEXT_NODE :: nat where
  "TEXT_NODE = 3"

fun childNodes :: "node \<Rightarrow> node list" where
  "childNodes (Element t as cs) = cs"
| "childNodes n = []"

fun textContent :: "node \<Rightarrow> jsstring" where
  "textContent (Text d) = d"
| "textContent (Comment d) = d"
| "textContent (Element t as cs) =
     concat (map (\<lambda>c. case c of Comment d \<Rightarrow> [] | _ \<Rightarrow> textContent c) cs)"

fun getAttribute :: "jsstring \<Rightarrow> node \<Rightarrow> jsstring option" where
  "getAttribute a (Element t as cs) = map_of as a"
| "getAttribute a n = None"

type_synonym path = "nat list"

fun node_at :: "node \<Rightarrow> path \<Rightarrow> node option" where
  "node_at n [] = Some n"
| "node_at (Element t as cs) (i # p) = (if i < length cs then node_at (cs ! i) p else None)"
| "node_at n (i # p) = None"

fun update_at :: "(node \<Rightarrow> node) \<Rightarrow> path \<Rightarrow> node \<Rightarrow> node" where
  "update_at f [] n = f n"
| "update_at f (i # p) (Element t as cs) =
     (if i < length cs then Element t as (cs[i := update_at f p (cs ! i)]) else Element t as cs)"
| "update_at f (i # p) n = n"

subsection \<open>Selectors\<close>

text \<open>The two selectors the scripts use: a class selector (\<^verbatim>\<open>.hero\<close>) and a type selector
  (\<^verbatim>\<open>h1\<close>). The class attribute is a list of tokens separated by ASCII whitespace.\<close>

datatype selector = ClassSel jsstring | TypeSel jsstring

definition is_ascii_whitespace :: "nat \<Rightarrow> bool" where
  "is_ascii_whitespace c \<longleftrightarrow> c \<in> set [9, 10, 12, 13, 32]"

fun split_tokens :: "jsstring \<Rightarrow> jsstring \<Rightarrow> jsstring list" where
  "split_tokens cur [] = (if cur = [] then [] else [cur])"
| "split_tokens cur (c # s) =
     (if is_ascii_whitespace c then (if cur = [] then [] else [cur]) @ split_tokens [] s
      else split_tokens (cur @ [c]) s)"

definition classList :: "node \<Rightarrow> jsstring list" where
  "classList n = (case getAttribute (js ''class'') n of None \<Rightarrow> []
                  | Some v \<Rightarrow> split_tokens [] v)"

fun matches :: "selector \<Rightarrow> node \<Rightarrow> bool" where
  "matches (ClassSel c) (Element t as cs) = (c \<in> set (classList (Element t as cs)))"
| "matches (TypeSel ty) (Element t as cs) = (t = ty)"
| "matches sel n = False"

text \<open>The first match in tree order (a node before its children, children from left to
  right): \<open>first_match\<close> searches a node and its descendants, \<open>first_in\<close> a list of siblings
  starting at child index \<open>i\<close>.\<close>

fun first_match :: "selector \<Rightarrow> node \<Rightarrow> path option"
  and first_in :: "selector \<Rightarrow> nat \<Rightarrow> node list \<Rightarrow> path option" where
  "first_match sel (Element t as cs) =
     (if matches sel (Element t as cs) then Some [] else first_in sel 0 cs)"
| "first_match sel (Text d) = None"
| "first_match sel (Comment d) = None"
| "first_in sel i [] = None"
| "first_in sel i (c # cs) =
     (case first_match sel c of Some p \<Rightarrow> Some (i # p) | None \<Rightarrow> first_in sel (Suc i) cs)"

text \<open>\<^verbatim>\<open>document.querySelector(sel)\<close> searches the whole document, its root element
  included; \<^verbatim>\<open>element.querySelector(sel)\<close> searches the descendants of the element only.
  Both return a reference (here the path from the document root) or null (\<open>None\<close>).\<close>

definition document_querySelector :: "selector \<Rightarrow> node \<Rightarrow> path option" where
  "document_querySelector sel doc = first_match sel doc"

definition element_querySelector :: "selector \<Rightarrow> node \<Rightarrow> path \<Rightarrow> path option" where
  "element_querySelector sel doc e =
     (case node_at doc e of None \<Rightarrow> None
      | Some n \<Rightarrow> map_option (\<lambda>p. e @ p) (first_in sel 0 (childNodes n)))"

subsection \<open>Serialising and parsing HTML fragments\<close>

text \<open>
  The \<^verbatim>\<open>innerHTML\<close> getter is the HTML fragment serialisation of the element's children:
  text is escaped (except inside raw-text elements), attribute values are escaped and
  double-quoted, void elements have neither children nor an end tag.
\<close>

definition void_elements :: "jsstring list" where
  "void_elements = map js [''area'', ''base'', ''basefont'', ''bgsound'', ''br'', ''col'',
     ''embed'', ''frame'', ''hr'', ''img'', ''input'', ''keygen'', ''link'', ''meta'',
     ''param'', ''source'', ''track'', ''wbr'']"

definition raw_text_elements :: "jsstring list" where
  "raw_text_elements = map js [''style'', ''script'', ''xmp'', ''iframe'', ''noembed'',
     ''noframes'', ''plaintext'', ''noscript'']"

fun escape_text :: "jsstring \<Rightarrow> jsstring" where
  "escape_text [] = []"
| "escape_text (c # s) =
     (if c = 38 then js ''&amp;''
      else if c = 160 then js ''&nbsp;''
      else if c = 60 then js ''&lt;''
      else if c = 62 then js ''&gt;''
      else [c]) @ escape_text s"

fun escape_attr :: "jsstring \<Rightarrow> jsstring" where
  "escape_attr [] = []"
| "escape_attr (c # s) =
     (if c = 38 then js ''&amp;''
      else if c = 160 then js ''&nbsp;''
      else if c = 34 then js ''&quot;''
      else [c]) @ escape_attr s"

definition serialize_attr :: "jsstring \<times> jsstring \<Rightarrow> jsstring" where
  "serialize_attr a = js '' '' @ fst a @ js ''=\"'' @ escape_attr (snd a) @ js ''\"''"

fun serialize_node :: "jsstring \<Rightarrow> node \<Rightarrow> jsstring" where
  "serialize_node parent (Text d) =
     (if parent \<in> set raw_text_elements then d else escape_text d)"
| "serialize_node parent (Comment d) = js ''<!--'' @ d @ js ''-->''"
| "serialize_node parent (Element t as cs) =
     js ''<'' @ t @ concat (map serialize_attr as) @ js ''>'' @
     (if t \<in> set void_elements then []
      else concat (map (serialize_node t) cs) @ js ''</'' @ t @ js ''>'')"

fun get_innerHTML :: "node \<Rightarrow> jsstring" where
  "get_innerHTML (Element t as cs) =
     (if t \<in> set void_elements then [] else concat (map (serialize_node t) cs))"
| "get_innerHTML n = []"

text \<open>
  The \<^verbatim>\<open>innerHTML\<close> setter parses its argument as an HTML fragment. The parser below is a
  model of the browser's for the markup the scripts of this repository write: text, start
  tags with attributes, end tags. The tokenizer is the state machine of the HTML
  standard without character references, comments, doctypes and the raw-text states; the
  tree builder keeps a stack of open elements, closes the nearest open element of the
  same name at an end tag, ignores an end tag that matches none, and closes what is open
  at the end of the input.
\<close>

datatype token = StartTag jsstring "(jsstring \<times> jsstring) list" | EndTag jsstring | Character nat

datatype tstate = Data | TagOpen | EndTagOpen | TagName | BeforeAttrName | AttrName
  | AfterAttrName | BeforeAttrValue | AttrValueDQ | AttrValueSQ | AttrValueUQ
  | AfterAttrValueQ | SelfClosing | Bogus

record tag =
  is_end :: bool
  tname :: jsstring
  tattrs :: "(jsstring \<times> jsstring) list"
  aname :: jsstring
  aval :: jsstring

definition new_tag :: "bool \<Rightarrow> tag" where
  "new_tag e = \<lparr>is_end = e, tname = [], tattrs = [], aname = [], aval = []\<rparr>"

definition is_ascii_alpha :: "nat \<Rightarrow> bool" where
  "is_ascii_alpha c \<longleftrightarrow> (65 \<le> c \<and> c \<le> 90) \<or> (97 \<le> c \<and> c \<le> 122)"

definition ascii_lower :: "nat \<Rightarrow> nat" where
  "ascii_lower c = (if 65 \<le> c \<and> c \<le> 90 then c + 32 else c)"

text \<open>Leaving an attribute: it is added to the tag unless its name is there already.\<close>

definition finish_attr :: "tag \<Rightarrow> tag" where
  "finish_attr g =
     (if aname g = [] then g
      else g\<lparr>tattrs := (if aname g \<in> fst ` set (tattrs g) then tattrs g
                          else tattrs g @ [(aname g, aval g)]),
             aname := [], aval := []\<rparr>)"

definition emit_tag :: "tag \<Rightarrow> token" where
  "emit_tag g = (let h = finish_attr g in
                 if is_end h then EndTag (tname h) else StartTag (tname h) (tattrs h))"

fun tokenize :: "tstate \<Rightarrow> tag \<Rightarrow> jsstring \<Rightarrow> token list" where
  "tokenize st g [] = (if st = TagOpen then [Character 60]
                       else if st = EndTagOpen then [Character 60, Character 47] else [])"
| "tokenize Data g (c # s) =
     (if c = 60 then tokenize TagOpen g s else Character c # tokenize Data g s)"
| "tokenize TagOpen g (c # s) =
     (if c = 47 then tokenize EndTagOpen g s
      else if is_ascii_alpha c then tokenize TagName ((new_tag False)\<lparr>tname := [ascii_lower c]\<rparr>) s
      else if c = 60 then Character 60 # tokenize TagOpen g s
      else if c = 33 \<or> c = 63 then tokenize Bogus g s
      else Character 60 # Character c # tokenize Data g s)"
| "tokenize EndTagOpen g (c # s) =
     (if is_ascii_alpha c then tokenize TagName ((new_tag True)\<lparr>tname := [ascii_lower c]\<rparr>) s
      else if c = 62 then tokenize Data g s
      else tokenize Bogus g s)"
| "tokenize Bogus g (c # s) =
     (if c = 62 then tokenize Data g s else tokenize Bogus g s)"
| "tokenize TagName g (c # s) =
     (if is_ascii_whitespace c then tokenize BeforeAttrName g s
      else if c = 47 then tokenize SelfClosing g s
      else if c = 62 then emit_tag g # tokenize Data g s
      else tokenize TagName (g\<lparr>tname := tname g @ [ascii_lower c]\<rparr>) s)"
| "tokenize BeforeAttrName g (c # s) =
     (if is_ascii_whitespace c then tokenize BeforeAttrName g s
      else if c = 47 then tokenize SelfClosing g s
      else if c = 62 then emit_tag g # tokenize Data g s
      else tokenize AttrName (g\<lparr>aname := [ascii_lower c], aval := []\<rparr>) s)"
| "tokenize AttrName g (c # s) =
     (if is_ascii_whitespace c then tokenize AfterAttrName g s
      else if c = 47 then tokenize SelfClosing (finish_attr g) s
      else if c = 62 then emit_tag g # tokenize Data g s
      else if c = 61 then tokenize BeforeAttrValue g s
      else tokenize AttrName (g\<lparr>aname := aname g @ [ascii_lower c]\<rparr>) s)"
| "tokenize AfterAttrName g (c # s) =
     (if is_ascii_whitespace c then tokenize AfterAttrName g s
      else if c = 47 then tokenize SelfClosing (finish_attr g) s
      else if c = 61 then tokenize BeforeAttrValue g s
      else if c = 62 then emit_tag g # tokenize Data g s
      else tokenize AttrName ((finish_attr g)\<lparr>aname := [ascii_lower c], aval := []\<rparr>) s)"
| "tokenize BeforeAttrValue g (c # s) =
     (if is_ascii_whitespace c then tokenize BeforeAttrValue g s
      else if c = 34 then tokenize AttrValueDQ g s
      else if c = 39 then tokenize AttrValueSQ g s
      else if c = 62 then emit_tag g # tokenize Data g s
      else tokenize AttrValueUQ (g\<lparr>aval := [c]\<rparr>) s)"
| "tokenize AttrValueDQ g (c # s) =
     (if c = 34 then tokenize AfterAttrValueQ (finish_attr g) s
      else tokenize AttrValueDQ (g\<lparr>aval := aval g @ [c]\<rparr>) s)"
| "tokenize AttrValueSQ g (c # s) =
     (if c = 39 then tokenize AfterAttrValueQ (finish_attr g) s
      else tokenize AttrValueSQ (g\<lparr>aval := aval g @ [c]\<rparr>) s)"
| "tokenize AttrValueUQ g (c # s) =
     (if is_ascii_whitespace c then tokenize BeforeAttrName (finish_attr g) s
      else if c = 62 then emit_tag g # tokenize Data g s
      else tokenize AttrValueUQ (g\<lparr>aval := aval g @ [c]\<rparr>) s)"
| "tokenize AfterAttrValueQ g (c # s) =
     (if is_ascii_whitespace c then tokenize BeforeAttrName g s
      else if c = 47 then tokenize SelfClosing g s
      else if c = 62 then emit_tag g # tokenize Data g s
      else tokenize AttrName (g\<lparr>aname := [ascii_lower c], aval := []\<rparr>) s)"
| "tokenize SelfClosing g (c # s) =
     (if c = 62 then emit_tag g # tokenize Data g s
      else if is_ascii_whitespace c then tokenize BeforeAttrName g s
      else if c = 47 then tokenize SelfClosing g s
      else tokenize AttrName (g\<lparr>aname := [ascii_lower c], aval := []\<rparr>) s)"

text \<open>An open element: its name, its attributes and the children it has so far. The
  bottom of the stack is the element whose \<^verbatim>\<open>innerHTML\<close> is set.\<close>

type_synonym frame = "jsstring \<times> (jsstring \<times> jsstring) list \<times> node list"

fun append_char :: "nat \<Rightarrow> node list \<Rightarrow> node list" where
  "append_char c [] = [Text [c]]"
| "append_char c [Text d] = [Text (d @ [c])]"
| "append_char c [n] = [n, Text [c]]"
| "append_char c (n # ns) = n # append_char c ns"

fun add_child :: "node \<Rightarrow> frame list \<Rightarrow> frame list" where
  "add_child n [] = []"
| "add_child n ((t, as, cs) # st) = (t, as, cs @ [n]) # st"

fun close_top :: "frame list \<Rightarrow> frame list" where
  "close_top ((t, as, cs) # f # st) = add_child (Element t as cs) (f # st)"
| "close_top st = st"

fun close_until :: "jsstring \<Rightarrow> frame list \<Rightarrow> frame list" where
  "close_until name ((t, as, cs) # f # st) =
     (if t = name then close_top ((t, as, cs) # f # st)
      else close_until name (close_top ((t, as, cs) # f # st)))"
| "close_until name st = st"

fun close_all :: "frame list \<Rightarrow> node list" where
  "close_all [] = []"
| "close_all [(t, as, cs)] = cs"
| "close_all (f # g # st) = close_all (close_top (f # g # st))"

fun build :: "token list \<Rightarrow> frame list \<Rightarrow> node list" where
  "build [] st = close_all st"
| "build (Character c # ts) st =
     (case st of [] \<Rightarrow> [] | (t, as, cs) # rest \<Rightarrow> build ts ((t, as, append_char c cs) # rest))"
| "build (StartTag name as # ts) st =
     (if name \<in> set void_elements then build ts (add_child (Element name as []) st)
      else build ts ((name, as, []) # st))"
| "build (EndTag name # ts) st =
     (if name \<in> set (map fst (butlast st)) then build ts (close_until name st)
      else build ts st)"

definition parseHTML :: "jsstring \<Rightarrow> jsstring \<Rightarrow> node list" where
  "parseHTML context html = build (tokenize Data (new_tag False) html) [(context, [], [])]"

text \<open>Assigning \<^verbatim>\<open>innerHTML\<close> replaces the element's children by the parsed fragment;
  assigning \<^verbatim>\<open>textContent\<close> replaces them by one text node, or by nothing when the string
  is empty.\<close>

fun set_innerHTML :: "jsstring \<Rightarrow> node \<Rightarrow> node" where
  "set_innerHTML html (Element t as cs) = Element t as (parseHTML t html)"
| "set_innerHTML html n = n"

fun set_textContent :: "jsstring \<Rightarrow> node \<Rightarrow> node" where
  "set_textContent s (Element t as cs) = Element t as (if s = [] then [] else [Text s])"
| "set_textContent s (Text d) = Text s"
| "set_textContent s (Comment d) = Comment s"

section \<open>The hero script (\<^verbatim>\<open>blocks/hero/hero.js\<close>)\<close>

text \<open>
  The state a script runs in: the document and the rest of the global state (for instance
  the configuration object \<^verbatim>\<open>window.hlx\<close>), which is kept abstract. A reference to a node
  is the path of the node, null and undefined are \<open>None\<close>. Reading a property of null or
  undefined throws a \<^verbatim>\<open>TypeError\<close>; so does a reference that has no node. The other
  errors are what a failed \<^verbatim>\<open>fetch\<close> or \<^verbatim>\<open>json()\<close> rejects with and what user code throws.
\<close>

record 'g page =
  document :: node
  globals :: 'g

datatype js_error = TypeError | SyntaxError | Error jsstring

definition deref :: "node \<Rightarrow> path option \<Rightarrow> js_error + node" where
  "deref doc r = (case r of None \<Rightarrow> Inl TypeError
                  | Some p \<Rightarrow> (case node_at doc p of None \<Rightarrow> Inl TypeError | Some n \<Rightarrow> Inr n))"

text \<open>The string the script assigns for each \<^verbatim>\<open>DX\<close>.\<close>

definition dx_span :: jsstring where
  "dx_span = js ''<span class=\"dx\">DX</span>''"

text \<open>The loop over \<^verbatim>\<open>h1Element.childNodes\<close>: the data of the text nodes among the children,
  concatenated in order.\<close>

definition text_only :: "node list \<Rightarrow> jsstring" where
  "text_only nodes =
     foldl (\<lambda>textOnly n. if nodeType n = TEXT_NODE then textOnly @ textContent n else textOnly)
       [] nodes"

definition hero_script :: "'g page \<Rightarrow> js_error + 'g page" where
  "hero_script pg =
     (let heroBlock = document_querySelector (ClassSel (js ''hero'')) (document pg);
          h1Element = (case heroBlock of None \<Rightarrow> None
                       | Some b \<Rightarrow> element_querySelector (TypeSel (js ''h1'')) (document pg) b)
      in if h1Element \<noteq> None then
           (case deref (document pg) h1Element of Inl e \<Rightarrow> Inl e
            | Inr h1 \<Rightarrow>
               let textOnly = text_only (childNodes h1);
                   cleanText = trim (remove_nrt textOnly)
               in if startsWith cleanText (js ''FeDX'') then
                    Inr (pg\<lparr>document :=
                           update_at (set_innerHTML (replace_DX dx_span (get_innerHTML h1)))
                             (the h1Element) (document pg)\<rparr>)
                  else Inr pg)
         else Inr pg)"

subsection \<open>What the claims about the hero script speak of\<close>

text \<open>The nodes of a tree in tree order, and the descendants of a node.\<close>

fun subtree_nodes :: "node \<Rightarrow> node list" where
  "subtree_nodes (Element t as cs) = Element t as cs # concat (map subtree_nodes cs)"
| "subtree_nodes n = [n]"

definition descendants :: "node \<Rightarrow> node list" where
  "descendants n = concat (map subtree_nodes (childNodes n))"

text \<open>Tree order on paths: a node stands before its descendants and before everything in
  and below its later siblings.\<close>

definition tree_order :: "(path \<times> path) set" where
  "tree_order = lexord {(a, b). a < b}"

text \<open>What a node is by itself, without its children: the name and attributes of an element,
  the data of a text or comment node.\<close>

fun label :: "node \<Rightarrow> node" where
  "label (Element t as cs) = Element t as []"
| "label n = n"

text \<open>The first \<^verbatim>\<open>h1\<close> inside the first element of class \<^verbatim>\<open>hero\<close>, as the first two lines of
  the script find it.\<close>

definition hero_h1 :: "node \<Rightarrow> path option" where
  "hero_h1 doc =
     (case document_querySelector (ClassSel (js ''hero'')) doc of None \<Rightarrow> None
      | Some b \<Rightarrow> element_querySelector (TypeSel (js ''h1'')) doc b)"

text \<open>The guard in the words of the claims: the data of the direct text children,
  concatenated; line feeds, carriage returns and tabs removed; trimmed; starting with
  \<^verbatim>\<open>FeDX\<close>.\<close>

definition direct_text :: "node list \<Rightarrow> jsstring" where
  "direct_text cs = concat (map (\<lambda>n. case n of Text d \<Rightarrow> d | _ \<Rightarrow> []) cs)"

definition hero_guard :: "node list \<Rightarrow> bool" where
  "hero_guard cs \<longleftrightarrow>
     prefix (js ''FeDX'') (trim (filter (\<lambda>c. c \<notin> {10, 13, 9}) (direct_text cs)))"

text \<open>Replacing every occurrence of \<^verbatim>\<open>DX\<close>, position by position: where an occurrence starts,
  the replacement stands; the second code unit of an occurrence gives nothing; every
  other code unit stays.\<close>

definition occurs_DX :: "jsstring \<Rightarrow> nat \<Rightarrow> bool" where
  "occurs_DX s i \<longleftrightarrow> Suc i < length s \<and> s ! i = 68 \<and> s ! Suc i = 88"

definition dx_piece :: "jsstring \<Rightarrow> jsstring \<Rightarrow> nat \<Rightarrow> jsstring" where
  "dx_piece r s i =
     (if occurs_DX s i then r else if 0 < i \<and> occurs_DX s (i - 1) then [] else [s ! i])"

definition replace_every_DX :: "jsstring \<Rightarrow> jsstring \<Rightarrow> jsstring" where
  "replace_every_DX r s = concat (map (dx_piece r s) [0..<length s])"


section \<open>Block decorator patterns (\<^verbatim>\<open>docs/explanation/block-system.md\<close>)\<close>

subsection \<open>List-based blocks\<close>

text \<open>\<^verbatim>\<open>document.createElement\<close>, \<^verbatim>\<open>element.children\<close> (the child nodes that are elements)
  and \<^verbatim>\<open>element.append\<close>.\<close>

definition createElement :: "jsstring \<Rightarrow> node" where
  "createElement name = Element name [] []"

definition children :: "node \<Rightarrow> node list" where
  "children n = filter (\<lambda>c. nodeType c = 1) (childNodes n)"

fun node_append :: "node \<Rightarrow> node \<Rightarrow> node" where
  "node_append (Element t as cs) c = Element t as (cs @ [c])"
| "node_append n c = n"

text \<open>
  \<^verbatim>\<open>
  export default function decorate(block) {
    const ul = document.createElement('ul');
    [...block.children].forEach((row) => {
      const li = document.createElement('li');
      li.innerHTML = row.innerHTML;
      ul.append(li);
    });
    block.textContent = '';
    block.append(ul);
  }\<close>
  A block that is not an element has no \<^verbatim>\<open>children\<close>, and spreading \<^verbatim>\<open>undefined\<close> throws.
\<close>

definition decorate_list :: "node \<Rightarrow> js_error + node" where
  "decorate_list block =
     (case block of
        Element t as cs \<Rightarrow>
          let ul = foldl (\<lambda>ul row.
                     let li = createElement (js ''li'');
                         li = set_innerHTML (get_innerHTML row) li
                     in node_append ul li)
                   (createElement (js ''ul'')) (children block);
              block = set_textContent [] block
          in Inr (node_append block ul)
      | _ \<Rightarrow> Inl TypeError)"

subsection \<open>Async data loading\<close>





section \<open>Utilities of \<^verbatim>\<open>scripts/aem.js\<close>\<close>

text \<open>
  \<^verbatim>\<open>scripts/aem.js\<close> is not among the sources of the repository at hand; its reference
  documentation is. The two functions below are modelled from that documentation.
\<close>

subsection \<open>\<^verbatim>\<open>toClassName\<close>\<close>








subsection \<open>\<^verbatim>\<open>readBlockConfig\<close>\<close>









section \<open>The page lifecycle (\<^verbatim>\<open>docs/reference/scripts-api.md\<close>)\<close>

text \<open>
  \<^verbatim>\<open>
  document.addEventListener('DOMContentLoaded', async () => {
    await loadEager(document);
    await loadLazy(document);
    loadDelayed();
  });

  function loadDelayed() {
    window.setTimeout(() => import('./delayed.js'), 3000);
    loadCSS(`${window.hlx.codeBasePath}/styles/delayed.css`);
  }\<close>
  What can be observed of a page load is the sequence of its events, each with the time
  at which it happens: a phase is called (\<open>Start\<close>), the promise of a phase is fulfilled
  (\<open>End\<close>), the handler returns (\<open>HandlerDone\<close>), the timer callback imports \<^verbatim>\<open>delayed.js\<close>
  (\<open>ImportDelayed\<close>), a style sheet is requested, or a phase does something of its own
  (\<open>Act\<close>).
\<close>

datatype phase = Eager | Lazy | Delayed

datatype 'u event = Start phase | End phase | ImportDelayed | LoadCSS jsstring | HandlerDone | Act 'u

text \<open>
  An async function is a resumable computation: it returns or throws, does something
  observable and goes on, awaits a promise that the environment settles (fulfilled or
  rejected) and goes on with the outcome, or registers a timer callback and goes on.
  \<open>seq p q\<close> is \<open>q\<close> after \<open>p\<close> has returned; an exception of \<open>p\<close> ends both.
\<close>

datatype 'e proc =
    Done
  | Throw
  | Emit 'e "'e proc"
  | Await "bool \<Rightarrow> 'e proc"
  | SetTimeout nat "'e proc" "'e proc"

primrec seq :: "'e proc \<Rightarrow> 'e proc \<Rightarrow> 'e proc" where
  "seq Done q = q"
| "seq Throw q = Throw"
| "seq (Emit e k) q = Emit e (seq k q)"
| "seq (Await k) q = Await (\<lambda>b. seq (k b) q)"
| "seq (SetTimeout d cb k) q = SetTimeout d cb (seq k q)"

text \<open>
  \<^verbatim>\<open>await f(document); rest\<close>: \<open>f\<close> is called, its body runs to its end through all its own
  awaits, its promise is fulfilled, and the caller goes on when the event loop resumes
  it. The bodies of \<^verbatim>\<open>loadEager\<close> and \<^verbatim>\<open>loadLazy\<close> call functions of \<^verbatim>\<open>scripts/aem.js\<close>, which
  is not among the sources: they are parameters, any computations over events of their
  own.
\<close>

definition await_call :: "phase \<Rightarrow> 'u proc \<Rightarrow> 'u event proc \<Rightarrow> 'u event proc" where
  "await_call ph body rest =
     Emit (Start ph) (seq (map_proc Act body) (Emit (End ph) (Await (\<lambda>b. rest))))"

definition loadDelayed :: "jsstring \<Rightarrow> 'u event proc \<Rightarrow> 'u event proc" where
  "loadDelayed codeBasePath rest =
     Emit (Start Delayed)
       (SetTimeout 3000 (Emit ImportDelayed Done)
          (Emit (LoadCSS (codeBasePath @ js ''/styles/delayed.css''))
             (Emit (End Delayed) rest)))"

definition handler :: "'u proc \<Rightarrow> 'u proc \<Rightarrow> jsstring \<Rightarrow> 'u event proc" where
  "handler loadEager loadLazy codeBasePath =
     await_call Eager loadEager
       (await_call Lazy loadLazy
          (loadDelayed codeBasePath (Emit HandlerDone Done)))"

text \<open>
  The event loop: the clock, the events so far, the computations that await a promise,
  and the timers with the time at which they are due. \<open>exec\<close> runs a computation until it
  awaits or ends; nothing else runs in between. The environment decides what happens
  next: it settles the promise of a waiting computation, fires a timer that is due, or
  lets time pass. A continuation after \<^verbatim>\<open>await\<close> and a timer callback are not told apart
  here (a browser runs the former first), so every schedule of a browser is among the
  schedules of the model.
\<close>

record 'e loop =
  now :: nat
  trace :: "(nat \<times> 'e) list"
  pending :: "(bool \<Rightarrow> 'e proc) list"
  timers :: "(nat \<times> 'e proc) list"

primrec exec :: "'e proc \<Rightarrow> 'e loop \<Rightarrow> 'e loop" where
  "exec Done s = s"
| "exec Throw s = s"
| "exec (Emit e k) s = exec k (s\<lparr>trace := trace s @ [(now s, e)]\<rparr>)"
| "exec (Await k) s = s\<lparr>pending := pending s @ [k]\<rparr>"
| "exec (SetTimeout d cb k) s = exec k (s\<lparr>timers := timers s @ [(now s + d, cb)]\<rparr>)"

datatype choice = Resume nat bool | Fire nat | Tick nat

definition remove_nth :: "nat \<Rightarrow> 'a list \<Rightarrow> 'a list" where
  "remove_nth i xs = take i xs @ drop (Suc i) xs"

fun step :: "choice \<Rightarrow> 'e loop \<Rightarrow> 'e loop" where
  "step (Resume i b) s =
     (if i < length (pending s)
      then exec ((pending s ! i) b) (s\<lparr>pending := remove_nth i (pending s)\<rparr>)
      else s)"
| "step (Fire i) s =
     (if i < length (timers s) \<and> fst (timers s ! i) \<le> now s
      then exec (snd (timers s ! i)) (s\<lparr>timers := remove_nth i (timers s)\<rparr>)
      else s)"
| "step (Tick n) s = s\<lparr>now := now s + n\<rparr>"

definition run :: "choice list \<Rightarrow> 'e loop \<Rightarrow> 'e loop" where
  "run sched s = foldl (\<lambda>s c. step c s) s sched"

definition page_load :: "'u proc \<Rightarrow> 'u proc \<Rightarrow> jsstring \<Rightarrow> choice list \<Rightarrow> (nat \<times> 'u event) list" where
  "page_load loadEager loadLazy codeBasePath sched =
     trace (run sched (exec (handler loadEager loadLazy codeBasePath)
                         \<lparr>now = 0, trace = [], pending = [], timers = []\<rparr>))"

subsection \<open>Ordered traces\<close>

text \<open>
  What the proof of the order needs: \<open>may_emit H t e\<close> says that the event \<open>e\<close> may happen
  at time \<open>t\<close> after the timed events \<open>H\<close>; a trace is \<open>ordered\<close> when each of its events
  may happen after those before it; \<open>sync_events\<close> are the events of a computation up to
  its next await; \<open>safe_proc p H t\<close> says that \<open>p\<close>, started at time \<open>t\<close> after \<open>H\<close>, and
  every callback it registers, emit only what may happen, whatever else happens while
  they wait.
\<close>

definition may_emit :: "(nat \<times> 'u event) set \<Rightarrow> nat \<Rightarrow> 'u event \<Rightarrow> bool" where
  "may_emit H t e \<longleftrightarrow>
     (e = Start Lazy \<longrightarrow> End Eager \<in> snd ` H) \<and>
     (e = Start Delayed \<longrightarrow> End Lazy \<in> snd ` H) \<and>
     (e = ImportDelayed \<longrightarrow>
        HandlerDone \<in> snd ` H \<and> (\<exists>T. (T, Start Delayed) \<in> H \<and> T + 3000 \<le> t))"

primrec ordered :: "(nat \<times> 'u event) set \<Rightarrow> (nat \<times> 'u event) list \<Rightarrow> bool" where
  "ordered H [] = True"
| "ordered H (x # tr) = (may_emit H (fst x) (snd x) \<and> ordered (insert x H) tr)"

primrec sync_events :: "nat \<Rightarrow> 'e proc \<Rightarrow> (nat \<times> 'e) set" where
  "sync_events t Done = {}"
| "sync_events t Throw = {}"
| "sync_events t (Emit e k) = insert (t, e) (sync_events t k)"
| "sync_events t (Await k) = {}"
| "sync_events t (SetTimeout d cb k) = sync_events t k"

primrec safe_proc :: "'u event proc \<Rightarrow> (nat \<times> 'u event) set \<Rightarrow> nat \<Rightarrow> bool" where
  "safe_proc Done H t = True"
| "safe_proc Throw H t = True"
| "safe_proc (Emit e k) H t = (may_emit H t e \<and> safe_proc k (insert (t, e) H) t)"
| "safe_proc (Await k) H t = (\<forall>b H' t'. H \<subseteq> H' \<and> t \<le> t' \<longrightarrow> safe_proc (k b) H' t')"
| "safe_proc (SetTimeout d cb k) H t =
     (safe_proc k H t \<and> (\<forall>H' t'. H \<union> sync_events t k \<subseteq> H' \<and> t + d \<le> t' \<longrightarrow> safe_proc cb H' t'))"

definition tasks_safe :: "'u event loop \<Rightarrow> (nat \<times> 'u event) set \<Rightarrow> bool" where
  "tasks_safe s H \<longleftrightarrow>
     (\<forall>k\<in>set (pending s). \<forall>b H' t'. H \<subseteq> H' \<and> now s \<le> t' \<longrightarrow> safe_proc (k b) H' t') \<and>
     (\<forall>x\<in>set (timers s). \<forall>H' t'. H \<subseteq> H' \<and> fst x \<le> t' \<and> now s \<le> t' \<longrightarrow> safe_proc (snd x) H' t')"

definition loop_inv :: "'u event loop \<Rightarrow> bool" where
  "loop_inv s \<longleftrightarrow> ordered {} (trace s) \<and> tasks_safe s (set (trace s))"

section \<open>Example inputs\<close>

text \<open>A page with a hero block, whose \<^verbatim>\<open>h1\<close> has the given children, and a cards block; a
  page without a hero block (\<^verbatim>\<open>heroic\<close> is another class); a page whose first hero block has
  no \<^verbatim>\<open>h1\<close>; a page with two equal hero blocks.\<close>

definition hero_page :: "node list \<Rightarrow> unit page" where
  "hero_page cs =
     \<lparr>document = Element (js ''body'') []
        [Element (js ''div'') [(js ''class'', js ''hero block'')]
           [Element (js ''div'') []
              [Element (js ''h1'') [(js ''id'', js ''title'')] cs,
               Element (js ''p'') [] [Text (js ''FeDX'')]]],
         Element (js ''div'') [(js ''class'', js ''cards'')]
           [Element (js ''h1'') [] [Text (js ''FeDX'')]]],
      globals = ()\<rparr>"

definition plain_page :: "unit page" where
  "plain_page =
     \<lparr>document = Element (js ''body'') []
        [Element (js ''div'') [(js ''class'', js ''cards heroic'')]
           [Element (js ''h1'') [] [Text (js ''FeDX'')]]],
      globals = ()\<rparr>"

definition hero_without_h1 :: "unit page" where
  "hero_without_h1 =
     \<lparr>document = Element (js ''body'') []
        [Element (js ''div'') [(js ''class'', js ''hero'')]
           [Element (js ''h2'') [] [Text (js ''FeDX'')]],
         Element (js ''div'') [(js ''class'', js ''hero'')]
           [Element (js ''h1'') [] [Text (js ''FeDX'')]]],
      globals = ()\<rparr>"

definition two_hero_page :: "unit page" where
  "two_hero_page =
     \<lparr>document = Element (js ''main'') []
        [Element (js ''div'') [(js ''class'', js ''hero'')] [Element (js ''h1'') [] [Text (js ''FeDX'')]],
         Element (js ''div'') [(js ''class'', js ''hero'')] [Element (js ''h1'') [] [Text (js ''FeDX'')]]],
      globals = ()\<rparr>"

text \<open>A picture with text inside, and the span the hero script writes.\<close>

definition picture_FeDX :: node where
  "picture_FeDX = Element (js ''picture'') [] [Element (js ''img'') [(js ''src'', js ''/media/hero.jpg'')] [],
     Text (js ''FeDX'')]"

definition dx_elem :: "node list \<Rightarrow> node" where
  "dx_elem cs = Element (js ''span'') [(js ''class'', js ''dx'')] cs"

text \<open>A block of three rows with text nodes between them.\<close>

definition sample_block :: node where
  "sample_block = Element (js ''div'') [(js ''class'', js ''cards'')]
     [Text (js '' ''),
      Element (js ''div'') [] [Element (js ''div'') [] [Text (js ''One'')]],
      Text (js '' ''),
      Element (js ''div'') [] [Element (js ''div'') []
         [Element (js ''a'') [(js ''href'', js ''/two'')] [Text (js ''Two'')]]],
      Element (js ''div'') [] []]"




text \<open>Phases that await a promise each (\<^verbatim>\<open>loadLazy\<close> also sets a timer of its own), and a
  schedule that fulfils every promise and fires the timers when they are due. The second
  \<open>Fire\<close> comes before its timer is due and does nothing.\<close>

definition sample_eager :: "string proc" where
  "sample_eager = Emit ''decorate'' (Await (\<lambda>fulfilled. if fulfilled then Emit ''lcp'' Done else Throw))"

definition sample_lazy :: "string proc" where
  "sample_lazy = Await (\<lambda>fulfilled.
     if fulfilled then Emit ''sections'' (SetTimeout 10 (Emit ''late'' Done) Done) else Throw)"

definition sample_schedule :: "choice list" where
  "sample_schedule = [Resume 0 True, Resume 0 True, Resume 0 True, Tick 10, Fire 0,
     Resume 0 True, Fire 0, Tick 3000, Fire 0]"




section \<open>Properties of the hero script\<close>

subsection \<open>Queries, the guard, the replacement\<close>

lemma first_match_None_iff:
  "(first_match sel n = None) = (\<forall>m\<in>set (subtree_nodes n). \<not> matches sel m)"
  "(first_in sel i ns = None) = (\<forall>c\<in>set ns. \<forall>m\<in>set (subtree_nodes c). \<not> matches sel m)"
  by (induction sel n and sel i ns rule: first_match_first_in.induct)
     (auto split: option.splits)

lemma first_match_Some:
  "first_match sel n = Some p \<Longrightarrow>
     \<exists>t as cs. node_at n p = Some (Element t as cs) \<and> matches sel (Element t as cs)"
  "first_in sel i ns = Some p \<Longrightarrow>
     \<exists>j q t as cs. p = (i + j) # q \<and> j < length ns \<and>
        node_at (ns ! j) q = Some (Element t as cs) \<and> matches sel (Element t as cs)"
proof (induction sel n and sel i ns arbitrary: p and p rule: first_match_first_in.induct)
  case (1 sel t as cs)
  then show ?case by (fastforce split: if_splits)
next
  case (5 sel i c cs)
  show ?case
  proof (cases "first_match sel c")
    case None
    with 5 obtain j q t as ds where "p = (Suc i + j) # q" "j < length cs"
      "node_at (cs ! j) q = Some (Element t as ds)" "matches sel (Element t as ds)"
      by fastforce
    then show ?thesis by (intro exI[of _ "Suc j"]) auto
  next
    case (Some r)
    with 5 show ?thesis by (intro exI[of _ 0]) auto
  qed
qed simp_all

lemma node_at_append:
  "node_at n (p @ q) = (case node_at n p of None \<Rightarrow> None | Some m \<Rightarrow> node_at m q)"
  by (induction n p rule: node_at.induct) auto

lemma element_querySelector_Some:
  assumes "element_querySelector sel doc b = Some p"
  shows "\<exists>t as cs. node_at doc p = Some (Element t as cs) \<and> matches sel (Element t as cs)"
proof -
  from assms obtain n r where n: "node_at doc b = Some n"
    and r: "first_in sel 0 (childNodes n) = Some r" and p: "p = b @ r"
    by (auto simp: element_querySelector_def split: option.splits)
  from first_match_Some(2)[OF r] obtain j q t as cs where
    "r = j # q" "j < length (childNodes n)"
    "node_at (childNodes n ! j) q = Some (Element t as cs)" "matches sel (Element t as cs)"
    by auto
  then show ?thesis using n p
    by (cases n) (auto simp: node_at_append)
qed

text \<open>A query returns the first match in tree order: no node before it matches.\<close>

lemma first_in_Some_iff:
  "first_in sel i ns = Some p \<longleftrightarrow>
     (\<exists>j q. j < length ns \<and> p = (i + j) # q \<and> first_match sel (ns ! j) = Some q \<and>
            (\<forall>k<j. first_match sel (ns ! k) = None))"
proof (induction ns arbitrary: i)
  case Nil
  show ?case by simp
next
  case (Cons c ns)
  show ?case
  proof (cases "first_match sel c")
    case (Some r)
    show ?thesis
    proof
      assume "first_in sel i (c # ns) = Some p"
      with Some have "p = (i + 0) # r" by simp
      with Some show "\<exists>j q. j < length (c # ns) \<and> p = (i + j) # q \<and>
          first_match sel ((c # ns) ! j) = Some q \<and> (\<forall>k<j. first_match sel ((c # ns) ! k) = None)"
        by (intro exI[of _ 0] exI[of _ r]) simp
    next
      assume "\<exists>j q. j < length (c # ns) \<and> p = (i + j) # q \<and>
          first_match sel ((c # ns) ! j) = Some q \<and> (\<forall>k<j. first_match sel ((c # ns) ! k) = None)"
      then obtain j q where j: "p = (i + j) # q" "first_match sel ((c # ns) ! j) = Some q"
        "\<forall>k<j. first_match sel ((c # ns) ! k) = None" by blast
      have "j = 0"
      proof (rule ccontr)
        assume "j \<noteq> 0"
        with j(3) have "first_match sel ((c # ns) ! 0) = None" by blast
        with Some show False by simp
      qed
      with j Some show "first_in sel i (c # ns) = Some p" by simp
    qed
  next
    case None
    have "first_in sel i (c # ns) = Some p \<longleftrightarrow> first_in sel (Suc i) ns = Some p"
      using None by simp
    also have "\<dots> \<longleftrightarrow> (\<exists>j q. j < length ns \<and> p = (Suc i + j) # q \<and>
        first_match sel (ns ! j) = Some q \<and> (\<forall>k<j. first_match sel (ns ! k) = None))"
      by (rule Cons.IH)
    also have "\<dots> \<longleftrightarrow> (\<exists>j q. j < length (c # ns) \<and> p = (i + j) # q \<and>
        first_match sel ((c # ns) ! j) = Some q \<and> (\<forall>k<j. first_match sel ((c # ns) ! k) = None))"
    proof
      assume "\<exists>j q. j < length ns \<and> p = (Suc i + j) # q \<and>
        first_match sel (ns ! j) = Some q \<and> (\<forall>k<j. first_match sel (ns ! k) = None)"
      then obtain j q where j: "j < length ns" "p = (Suc i + j) # q"
        "first_match sel (ns ! j) = Some q" "\<forall>k<j. first_match sel (ns ! k) = None" by blast
      have "\<forall>k<Suc j. first_match sel ((c # ns) ! k) = None"
        using j(4) None by (auto simp: nth_Cons split: nat.splits)
      with j show "\<exists>j q. j < length (c # ns) \<and> p = (i + j) # q \<and>
        first_match sel ((c # ns) ! j) = Some q \<and> (\<forall>k<j. first_match sel ((c # ns) ! k) = None)"
        by (intro exI[of _ "Suc j"] exI[of _ q]) simp
    next
      assume "\<exists>j q. j < length (c # ns) \<and> p = (i + j) # q \<and>
        first_match sel ((c # ns) ! j) = Some q \<and> (\<forall>k<j. first_match sel ((c # ns) ! k) = None)"
      then obtain j q where j: "j < length (c # ns)" "p = (i + j) # q"
        "first_match sel ((c # ns) ! j) = Some q" "\<forall>k<j. first_match sel ((c # ns) ! k) = None" by blast
      from j(3) None obtain j' where j': "j = Suc j'" by (cases j) auto
      have "\<forall>k<j'. first_match sel (ns ! k) = None"
        using j(4) j' by (metis Suc_less_eq nth_Cons_Suc)
      with j j' show "\<exists>j q. j < length ns \<and> p = (Suc i + j) # q \<and>
        first_match sel (ns ! j) = Some q \<and> (\<forall>k<j. first_match sel (ns ! k) = None)"
        by (intro exI[of _ j'] exI[of _ q]) simp
    qed
    finally show ?thesis .
  qed
qed

lemma node_at_subtree: "node_at n q = Some m \<Longrightarrow> m \<in> set (subtree_nodes n)"
proof (induction n q rule: node_at.induct)
  case (1 n)
  then show ?case by (cases n) auto
next
  case (2 t as cs i p)
  then show ?case by (auto split: if_splits)
qed simp_all

lemma first_match_first:
  "first_match sel n = Some p \<Longrightarrow> (q, p) \<in> tree_order \<Longrightarrow> node_at n q = Some m \<Longrightarrow>
     \<not> matches sel m"
proof (induction n arbitrary: p q m)
  case (Element t as cs)
  show ?case
  proof (cases "matches sel (Element t as cs)")
    case True
    with Element.prems show ?thesis by (simp add: tree_order_def)
  next
    case False
    with Element.prems(1) have "first_in sel 0 cs = Some p" by simp
    then obtain j r where j: "j < length cs" "p = j # r" "first_match sel (cs ! j) = Some r"
      "\<forall>k<j. first_match sel (cs ! k) = None"
      unfolding first_in_Some_iff by auto
    show ?thesis
    proof (cases q)
      case Nil
      with Element.prems(3) False show ?thesis by simp
    next
      case (Cons k q')
      with Element.prems(3) have k: "k < length cs" "node_at (cs ! k) q' = Some m"
        by (auto split: if_splits)
      from Element.prems(2) Cons j(2) consider "k < j" | "k = j" "(q', r) \<in> tree_order"
        by (auto simp: tree_order_def)
      then show ?thesis
      proof cases
        case 1
        with j(4) have "first_match sel (cs ! k) = None" by simp
        with node_at_subtree[OF k(2)] show ?thesis
          by (simp add: first_match_None_iff)
      next
        case 2
        with j k Element.IH[of "cs ! j" r q' m] show ?thesis by simp
      qed
    qed
  qed
qed simp_all


lemma first_in_first:
  assumes "first_in sel 0 cs = Some p" and "(k # q, p) \<in> tree_order"
    and "k < length cs" and "node_at (cs ! k) q = Some m"
  shows "\<not> matches sel m"
proof -
  from assms(1) obtain j r where j: "j < length cs" "p = j # r" "first_match sel (cs ! j) = Some r"
    "\<forall>k<j. first_match sel (cs ! k) = None"
    unfolding first_in_Some_iff by auto
  from assms(2) j(2) consider "k < j" | "k = j" "(q, r) \<in> tree_order"
    by (auto simp: tree_order_def)
  then show ?thesis
  proof cases
    case 1
    with j(4) have "first_match sel (cs ! k) = None" by simp
    with node_at_subtree[OF assms(4)] show ?thesis
      by (simp add: first_match_None_iff)
  next
    case 2
    with j(3) assms(4) show ?thesis by (auto dest: first_match_first)
  qed
qed

lemma document_querySelector_first:
  "document_querySelector sel doc = Some p \<Longrightarrow> (q, p) \<in> tree_order \<Longrightarrow>
     node_at doc q = Some m \<Longrightarrow> \<not> matches sel m"
  unfolding document_querySelector_def by (rule first_match_first)

lemma element_querySelector_first:
  assumes "element_querySelector sel doc e = Some p"
  shows "\<exists>r. p = e @ r \<and>
    (\<forall>k q m. (k # q, r) \<in> tree_order \<and> node_at doc (e @ k # q) = Some m \<longrightarrow> \<not> matches sel m)"
proof -
  from assms obtain n r where n: "node_at doc e = Some n"
    and r: "first_in sel 0 (childNodes n) = Some r" and p: "p = e @ r"
    by (auto simp: element_querySelector_def split: option.splits)
  have "\<not> matches sel m" if "(k # q, r) \<in> tree_order" "node_at doc (e @ k # q) = Some m" for k q m
  proof -
    from that(2) n have "node_at n (k # q) = Some m" by (simp add: node_at_append)
    then have "k < length (childNodes n)" "node_at (childNodes n ! k) q = Some m"
      by (cases n; auto split: if_splits)+
    with r that(1) show ?thesis by (auto dest: first_in_first)
  qed
  with p show ?thesis by blast
qed

lemma hero_h1_Some:
  "hero_h1 doc = Some p \<Longrightarrow> \<exists>as cs. node_at doc p = Some (Element (js ''h1'') as cs)"
  by (auto simp: hero_h1_def split: option.splits dest!: element_querySelector_Some)

lemma text_only_acc:
  "foldl (\<lambda>textOnly n. if nodeType n = TEXT_NODE then textOnly @ textContent n else textOnly)
     acc nodes = acc @ direct_text nodes"
  unfolding TEXT_NODE_def direct_text_def
  by (induction nodes arbitrary: acc) (auto split: node.splits)

lemma text_only_direct_text: "text_only nodes = direct_text nodes"
  by (simp add: text_only_def text_only_acc)

lemma startsWith_prefix: "startsWith s p = prefix p s"
  by (auto simp: startsWith_def prefix_def) (metis append_eq_conv_conj)

lemma remove_nrt_filter: "remove_nrt s = filter (\<lambda>c. c \<notin> {10, 13, 9}) s"
  by (simp add: remove_nrt_def)

lemma guard_eq:
  "startsWith (trim (remove_nrt (text_only cs))) (js ''FeDX'') = hero_guard cs"
  by (simp only: startsWith_prefix remove_nrt_filter text_only_direct_text hero_guard_def)

lemma hero_script_eq:
  "hero_script pg =
     (case hero_h1 (document pg) of None \<Rightarrow> Inr pg
      | Some p \<Rightarrow>
         (case node_at (document pg) p of None \<Rightarrow> Inl TypeError
          | Some h1 \<Rightarrow>
             if hero_guard (childNodes h1)
             then Inr (pg\<lparr>document :=
                    update_at (set_innerHTML (replace_DX dx_span (get_innerHTML h1))) p (document pg)\<rparr>)
             else Inr pg))"
  by (simp add: hero_script_def hero_h1_def deref_def guard_eq Let_def split: option.splits)

lemma occurs_DX_Cons: "occurs_DX (a # s) (Suc i) = occurs_DX s i"
  by (simp add: occurs_DX_def)

lemma replace_every_DX_Cons:
  "replace_every_DX r (a # s) =
     dx_piece r (a # s) 0 @ concat (map (\<lambda>i. dx_piece r (a # s) (Suc i)) [0..<length s])"
proof -
  have "[0..<length (a # s)] = 0 # map Suc [0..<length s]"
    by (simp add: upt_conv_Cons map_Suc_upt del: upt_Suc)
  then show ?thesis
    by (simp add: replace_every_DX_def o_def del: upt_Suc)
qed

lemma dx_piece_Suc:
  "\<not> occurs_DX (a # s) 0 \<Longrightarrow> dx_piece r (a # s) (Suc i) = dx_piece r s i"
  by (cases i) (simp_all add: dx_piece_def occurs_DX_Cons)

lemma replace_every_DX_skip:
  assumes "\<not> occurs_DX (a # s) 0"
  shows "replace_every_DX r (a # s) = a # replace_every_DX r s"
proof -
  have "replace_every_DX r (a # s) =
      dx_piece r (a # s) 0 @ concat (map (\<lambda>i. dx_piece r (a # s) (Suc i)) [0..<length s])"
    by (rule replace_every_DX_Cons)
  also have "dx_piece r (a # s) 0 = [a]"
    using assms by (simp add: dx_piece_def)
  also have "(\<lambda>i. dx_piece r (a # s) (Suc i)) = dx_piece r s"
    using assms by (simp add: dx_piece_Suc)
  finally show ?thesis
    by (simp add: replace_every_DX_def)
qed

lemma replace_every_DX_hit:
  "replace_every_DX r (68 # 88 # s) = r @ replace_every_DX r s"
proof -
  have 0: "occurs_DX (68 # 88 # s) 0" by (simp add: occurs_DX_def)
  have 1: "\<not> occurs_DX (88 # s) 0" by (simp add: occurs_DX_def)
  have a: "dx_piece r (68 # 88 # s) 0 = r"
    using 0 by (simp add: dx_piece_def)
  have b: "dx_piece r (68 # 88 # s) (Suc 0) = []"
    using 0 1 by (simp add: dx_piece_def occurs_DX_Cons)
  have c: "(\<lambda>i. dx_piece r (68 # 88 # s) (Suc (Suc i))) = dx_piece r s"
  proof
    fix i show "dx_piece r (68 # 88 # s) (Suc (Suc i)) = dx_piece r s i"
      using 1 by (cases i) (simp_all add: dx_piece_def occurs_DX_Cons)
  qed
  have u: "[0..<length (88 # s)] = 0 # map Suc [0..<length s]"
    by (simp add: upt_conv_Cons map_Suc_upt del: upt_Suc)
  have "replace_every_DX r (68 # 88 # s) =
      dx_piece r (68 # 88 # s) 0 @
      concat (map (\<lambda>i. dx_piece r (68 # 88 # s) (Suc i)) [0..<length (88 # s)])"
    by (rule replace_every_DX_Cons)
  also have "\<dots> = r @ concat (map (\<lambda>i. dx_piece r (68 # 88 # s) (Suc (Suc i))) [0..<length s])"
    unfolding u by (simp add: a b o_def)
  finally show ?thesis
    by (simp add: c replace_every_DX_def)
qed

lemma replace_DX_every: "replace_DX r s = replace_every_DX r s"
proof (induction r s rule: replace_DX.induct)
  case (1 r a b s)
  show ?case
  proof (cases "a = 68 \<and> b = 88")
    case True
    with 1 show ?thesis by (simp add: replace_every_DX_hit)
  next
    case False
    then have "\<not> occurs_DX (a # b # s) 0" by (auto simp: occurs_DX_def)
    then have "replace_every_DX r (a # b # s) = a # replace_every_DX r (b # s)"
      by (rule replace_every_DX_skip)
    with False 1 show ?thesis by auto
  qed
qed (simp_all add: replace_every_DX_def dx_piece_def occurs_DX_def)

lemma node_at_update_at_label:
  assumes f: "\<And>m. label (f m) = label m"
  shows "\<not> strict_prefix p q \<Longrightarrow>
     map_option label (node_at (update_at f p n) q) = map_option label (node_at n q)"
proof (induction p arbitrary: n q)
  case Nil
  then have "q = []" by (cases q) auto
  then show ?case by (simp add: f)
next
  case (Cons i p)
  show ?case
  proof (cases n)
    case (Element t as cs)
    show ?thesis
    proof (cases q)
      case Nil
      with Element show ?thesis by simp
    next
      case q: (Cons j q')
      show ?thesis
      proof (cases "j = i")
        case True
        with q Cons.prems have "\<not> strict_prefix p q'" by auto
        from Cons.IH[OF this] True q Element show ?thesis by simp
      next
        case False
        with q Element show ?thesis by simp
      qed
    qed
  qed (cases q; simp)+
qed

lemma label_set_innerHTML: "label (set_innerHTML html m) = label m"
  by (cases m) simp_all

lemmas dom_eval = js_def document_querySelector_def element_querySelector_def classList_def
  is_ascii_whitespace_def deref_def text_only_def TEXT_NODE_def trim_def remove_nrt_def
  is_js_whitespace_def startsWith_def dx_span_def void_elements_def raw_text_elements_def
  parseHTML_def new_tag_def is_ascii_alpha_def ascii_lower_def emit_tag_def finish_attr_def
  serialize_attr_def

lemma hero_h1_None_unchanged: "hero_h1 (document pg) = None \<Longrightarrow> hero_script pg = Inr pg"
  by (simp add: hero_script_eq)

text \<open>
  Claim C9. If no element of the document has the class \<^verbatim>\<open>hero\<close>, or the first such
  element has no \<^verbatim>\<open>h1\<close> among its descendants, the hero script ends normally, without an
  error, and returns the page as it was.
\<close>

theorem hero_script_absent_unchanged:
  assumes "(\<forall>m\<in>set (subtree_nodes (document pg)). \<not> matches (ClassSel (js ''hero'')) m) \<or>
           (\<exists>b h. document_querySelector (ClassSel (js ''hero'')) (document pg) = Some b \<and>
                  node_at (document pg) b = Some h \<and>
                  (\<forall>m\<in>set (descendants h). \<not> matches (TypeSel (js ''h1'')) m))"
  shows "hero_script pg = Inr pg"
proof -
  have "hero_h1 (document pg) = None"
    using assms
  proof
    assume "\<forall>m\<in>set (subtree_nodes (document pg)). \<not> matches (ClassSel (js ''hero'')) m"
    then have "first_match (ClassSel (js ''hero'')) (document pg) = None"
      by (simp add: first_match_None_iff)
    then show ?thesis
      by (simp add: hero_h1_def document_querySelector_def)
  next
    assume "\<exists>b h. document_querySelector (ClassSel (js ''hero'')) (document pg) = Some b \<and>
                  node_at (document pg) b = Some h \<and>
                  (\<forall>m\<in>set (descendants h). \<not> matches (TypeSel (js ''h1'')) m)"
    then obtain b h where b: "document_querySelector (ClassSel (js ''hero'')) (document pg) = Some b"
      and h: "node_at (document pg) b = Some h"
      and no: "\<forall>m\<in>set (descendants h). \<not> matches (TypeSel (js ''h1'')) m"
      by blast
    from no have "first_in (TypeSel (js ''h1'')) 0 (childNodes h) = None"
      by (auto simp: first_match_None_iff descendants_def)
    with b h show ?thesis
      by (simp add: hero_h1_def element_querySelector_def)
  qed
  then show ?thesis by (rule hero_h1_None_unchanged)
qed

text \<open>Both cases of C9 on concrete pages: a page without a hero block, and a page whose
  first hero block has an \<^verbatim>\<open>h2\<close> only.\<close>

theorem hero_script_absent_unchanged_witness:
  "list_all (\<lambda>m. \<not> matches (ClassSel (js ''hero'')) m) (subtree_nodes (document plain_page)) \<and>
   hero_script plain_page = Inr plain_page \<and>
   document_querySelector (ClassSel (js ''hero'')) (document hero_without_h1) = Some [0] \<and>
   list_all (\<lambda>m. \<not> matches (TypeSel (js ''h1'')) m)
     (descendants (Element (js ''div'') [(js ''class'', js ''hero'')]
           [Element (js ''h2'') [] [Text (js ''FeDX'')]])) \<and>
   hero_script hero_without_h1 = Inr hero_without_h1"
proof -
  have a: "\<forall>m\<in>set (subtree_nodes (document plain_page)). \<not> matches (ClassSel (js ''hero'')) m"
    by (simp add: plain_page_def dom_eval)
  have b: "document_querySelector (ClassSel (js ''hero'')) (document hero_without_h1) = Some [0]"
    by (simp add: hero_without_h1_def dom_eval)
  have c: "node_at (document hero_without_h1) [0] =
      Some (Element (js ''div'') [(js ''class'', js ''hero'')] [Element (js ''h2'') [] [Text (js ''FeDX'')]])"
    by (simp add: hero_without_h1_def)
  have d: "\<forall>m\<in>set (descendants (Element (js ''div'') [(js ''class'', js ''hero'')]
           [Element (js ''h2'') [] [Text (js ''FeDX'')]])). \<not> matches (TypeSel (js ''h1'')) m"
    by (simp add: descendants_def dom_eval)
  have 1: "hero_script plain_page = Inr plain_page"
    using hero_script_absent_unchanged[of plain_page, OF disjI1, OF a] .
  have 2: "hero_script hero_without_h1 = Inr hero_without_h1"
    using hero_script_absent_unchanged[of hero_without_h1, OF disjI2] b c d by blast
  show ?thesis
    using a b d 1 2 by (simp add: list_all_iff)
qed

text \<open>
  Claim C10. The hero script always ends normally and never writes the global state.
  Without a first \<^verbatim>\<open>h1\<close> in the first hero block the document stays as it is; otherwise
  every node that does not lie strictly below that \<^verbatim>\<open>h1\<close> is where it was and keeps its
  name, attributes or text (its \<open>label\<close>), the \<^verbatim>\<open>h1\<close> itself included: only the children of
  the \<^verbatim>\<open>h1\<close> may change.
\<close>

theorem hero_script_frame:
  "\<exists>pg'. hero_script pg = Inr pg' \<and> globals pg' = globals pg \<and>
     (case hero_h1 (document pg) of
        None \<Rightarrow> document pg' = document pg
      | Some p \<Rightarrow>
          (\<forall>q. \<not> strict_prefix p q \<longrightarrow>
             map_option label (node_at (document pg') q) =
             map_option label (node_at (document pg) q)))"
proof (cases "hero_h1 (document pg)")
  case None
  then show ?thesis by (simp add: hero_script_eq)
next
  case (Some p)
  then obtain as cs where "node_at (document pg) p = Some (Element (js ''h1'') as cs)"
    by (auto dest: hero_h1_Some)
  with Some show ?thesis
    by (simp add: hero_script_eq node_at_update_at_label label_set_innerHTML)
qed

text \<open>C10 on a page where the guard holds: the \<^verbatim>\<open>h1\<close> is rewritten, the \<^verbatim>\<open>h1\<close> of the
  cards block at path \<open>[1, 0]\<close> keeps its label.\<close>

theorem hero_script_frame_witness:
  "\<not> strict_prefix [0, 0, 0] [1, 0::nat] \<and>
   (\<exists>pg'. hero_script (hero_page [Text (js ''FeDX'')]) = Inr pg' \<and>
      pg' \<noteq> hero_page [Text (js ''FeDX'')] \<and> globals pg' = () \<and>
      map_option label (node_at (document pg') [1, 0]) = Some (Element (js ''h1'') [] []))"
proof -
  have h: "hero_h1 (document (hero_page [Text (js ''FeDX'')])) = Some [0, 0, 0]"
    by (simp add: hero_h1_def hero_page_def dom_eval)
  have n: "node_at (document (hero_page [Text (js ''FeDX'')])) [1, 0] =
      Some (Element (js ''h1'') [] [Text (js ''FeDX'')])"
    by (simp add: hero_page_def)
  have s: "\<not> strict_prefix [0, 0, 0] [1, 0::nat]" by simp
  obtain pg' where 1: "hero_script (hero_page [Text (js ''FeDX'')]) = Inr pg'"
    and 2: "globals pg' = globals (hero_page [Text (js ''FeDX'')])"
    and 3: "\<forall>q. \<not> strict_prefix [0, 0, 0] q \<longrightarrow>
             map_option label (node_at (document pg') q) =
             map_option label (node_at (document (hero_page [Text (js ''FeDX'')])) q)"
    using hero_script_frame[of "hero_page [Text (js ''FeDX'')]"] by (auto simp: h)
  have 4: "pg' \<noteq> hero_page [Text (js ''FeDX'')]"
    using 1 by (auto simp: hero_script_def hero_page_def dom_eval)
  have 5: "map_option label (node_at (document pg') [1, 0]) = Some (Element (js ''h1'') [] [])"
    using 3 s n by simp
  show ?thesis
    using 1 2 4 5 s by simp
qed

text \<open>
  Claim C4. When the first hero block has a first \<^verbatim>\<open>h1\<close>, the script assigns the
  \<^verbatim>\<open>innerHTML\<close> of that \<^verbatim>\<open>h1\<close> if and only if the data of its direct text children,
  concatenated, without line feeds, carriage returns and tabs, and trimmed, starts with
  \<^verbatim>\<open>FeDX\<close> (\<open>hero_guard\<close>); the string assigned is the old \<^verbatim>\<open>innerHTML\<close> with every occurrence
  of \<^verbatim>\<open>DX\<close> replaced by the span (\<open>replace_every_DX\<close>); an \<^verbatim>\<open>h1\<close> without a direct text child
  is never rewritten, whatever text its child elements hold.
\<close>

theorem hero_rewrite_iff_FeDX:
  assumes "document_querySelector (ClassSel (js ''hero'')) (document pg) = Some b"
    and "element_querySelector (TypeSel (js ''h1'')) (document pg) b = Some p"
  shows "\<exists>as cs. node_at (document pg) p = Some (Element (js ''h1'') as cs) \<and>
     hero_script pg =
       Inr (if hero_guard cs
            then pg\<lparr>document :=
                   update_at (set_innerHTML
                      (replace_every_DX dx_span (get_innerHTML (Element (js ''h1'') as cs))))
                     p (document pg)\<rparr>
            else pg) \<and>
     ((\<forall>n\<in>set cs. nodeType n \<noteq> TEXT_NODE) \<longrightarrow> hero_script pg = Inr pg)"
proof -
  from assms have h: "hero_h1 (document pg) = Some p"
    by (simp add: hero_h1_def)
  then obtain as cs where n: "node_at (document pg) p = Some (Element (js ''h1'') as cs)"
    by (auto dest: hero_h1_Some)
  have eq: "hero_script pg =
       Inr (if hero_guard cs
            then pg\<lparr>document :=
                   update_at (set_innerHTML
                      (replace_every_DX dx_span (get_innerHTML (Element (js ''h1'') as cs))))
                     p (document pg)\<rparr>
            else pg)"
    using h n by (simp add: hero_script_eq replace_DX_every)
  have "\<not> hero_guard cs" if "\<forall>n\<in>set cs. nodeType n \<noteq> TEXT_NODE"
  proof -
    from that have "direct_text cs = []"
      by (induction cs) (auto simp: direct_text_def TEXT_NODE_def split: node.splits)
    then show ?thesis
      by (simp add: hero_guard_def trim_def js_def)
  qed
  with eq n show ?thesis by auto
qed

text \<open>C4 on a page whose \<^verbatim>\<open>h1\<close> holds a picture with the text \<^verbatim>\<open>FeDX\<close> inside it and no
  text of its own, and on a page whose \<^verbatim>\<open>h1\<close> has the text nodes \<^verbatim>\<open>Fe\<close> and \<^verbatim>\<open>DX rocks\<close> around
  that picture: the guard holds, and every \<^verbatim>\<open>DX\<close> of the markup is wrapped, the one inside
  the picture too.\<close>

theorem hero_rewrite_iff_FeDX_witness:
  "document_querySelector (ClassSel (js ''hero'')) (document (hero_page [picture_FeDX])) = Some [0] \<and>
   element_querySelector (TypeSel (js ''h1'')) (document (hero_page [picture_FeDX])) [0] = Some [0, 0, 0] \<and>
   list_all (\<lambda>n. nodeType n \<noteq> TEXT_NODE) [picture_FeDX] \<and>
   hero_script (hero_page [picture_FeDX]) = Inr (hero_page [picture_FeDX]) \<and>
   hero_guard [Text (js '' Fe''), picture_FeDX, Text (js ''DX rocks'')] \<and>
   hero_script (hero_page [Text (js '' Fe''), picture_FeDX, Text (js ''DX rocks'')]) =
     Inr (hero_page [Text (js '' Fe''),
            Element (js ''picture'') [] [Element (js ''img'') [(js ''src'', js ''/media/hero.jpg'')] [],
              Text (js ''Fe''), dx_elem [Text (js ''DX'')]],
            dx_elem [Text (js ''DX'')], Text (js '' rocks'')])"
proof -
  let ?P = "hero_page [picture_FeDX]"
  let ?cs = "[Text (js '' Fe''), picture_FeDX, Text (js ''DX rocks'')]"
  let ?Q = "hero_page ?cs"
  have a: "document_querySelector (ClassSel (js ''hero'')) (document ?P) = Some [0]"
    by (simp add: hero_page_def picture_FeDX_def dom_eval)
  have b: "element_querySelector (TypeSel (js ''h1'')) (document ?P) [0] = Some [0, 0, 0]"
    by (simp add: hero_page_def picture_FeDX_def dom_eval)
  have c: "node_at (document ?P) [0, 0, 0] =
      Some (Element (js ''h1'') [(js ''id'', js ''title'')] [picture_FeDX])"
    by (simp add: hero_page_def)
  have d: "\<forall>n\<in>set [picture_FeDX]. nodeType n \<noteq> TEXT_NODE"
    by (simp add: picture_FeDX_def TEXT_NODE_def)
  from hero_rewrite_iff_FeDX[OF a b] c d
  have 1: "hero_script ?P = Inr ?P"
    by auto
  have a': "document_querySelector (ClassSel (js ''hero'')) (document ?Q) = Some [0]"
    by (simp add: hero_page_def picture_FeDX_def dom_eval)
  have b': "element_querySelector (TypeSel (js ''h1'')) (document ?Q) [0] = Some [0, 0, 0]"
    by (simp add: hero_page_def picture_FeDX_def dom_eval)
  have c': "node_at (document ?Q) [0, 0, 0] = Some (Element (js ''h1'') [(js ''id'', js ''title'')] ?cs)"
    by (simp add: hero_page_def)
  have g: "hero_guard ?cs"
    by (simp add: hero_guard_def direct_text_def picture_FeDX_def trim_def is_js_whitespace_def js_def)
  have r: "update_at (set_innerHTML (replace_every_DX dx_span
               (get_innerHTML (Element (js ''h1'') [(js ''id'', js ''title'')] ?cs))))
             [0, 0, 0] (document ?Q) =
           document (hero_page [Text (js '' Fe''),
            Element (js ''picture'') [] [Element (js ''img'') [(js ''src'', js ''/media/hero.jpg'')] [],
              Text (js ''Fe''), dx_elem [Text (js ''DX'')]],
            dx_elem [Text (js ''DX'')], Text (js '' rocks'')])"
    unfolding replace_DX_every[symmetric]
    by (simp add: hero_page_def picture_FeDX_def dx_elem_def dom_eval)
  from hero_rewrite_iff_FeDX[OF a' b'] c' g
  have "hero_script ?Q =
      Inr (?Q\<lparr>document := update_at (set_innerHTML (replace_every_DX dx_span
               (get_innerHTML (Element (js ''h1'') [(js ''id'', js ''title'')] ?cs))))
             [0, 0, 0] (document ?Q)\<rparr>)"
    by auto
  then have 2: "hero_script ?Q = Inr (hero_page [Text (js '' Fe''),
            Element (js ''picture'') [] [Element (js ''img'') [(js ''src'', js ''/media/hero.jpg'')] [],
              Text (js ''Fe''), dx_elem [Text (js ''DX'')]],
            dx_elem [Text (js ''DX'')], Text (js '' rocks'')])"
    unfolding r by (simp add: hero_page_def)
  from a b d 1 g 2 show ?thesis by (simp add: list_all_iff)
qed

text \<open>
  Claim C2, as stated, names the \<^verbatim>\<open>h1\<close> text \<^verbatim>\<open>FeDDXX\<close> as an input on which a second run
  changes the result of the first. That text does not start with \<^verbatim>\<open>FeDX\<close>: the script
  returns the page unchanged, in every run.
\<close>

theorem hero_FeDDXX_unchanged:
  "hero_script (hero_page [Text (js ''FeDDXX'')]) = Inr (hero_page [Text (js ''FeDDXX'')])"
  by (simp add: hero_script_def hero_page_def dom_eval)

text \<open>
  Claim C2, amended. The hero script is not idempotent: on the \<^verbatim>\<open>h1\<close> text \<^verbatim>\<open>FeDXDDXX\<close> the
  first run wraps both occurrences of \<^verbatim>\<open>DX\<close> in a span; the text nodes left, \<^verbatim>\<open>Fe\<close>, \<^verbatim>\<open>D\<close> and
  \<^verbatim>\<open>X\<close>, again start with \<^verbatim>\<open>FeDX\<close>, so the second run replaces the \<^verbatim>\<open>DX\<close> inside the spans
  of the first and nests them.
\<close>

theorem hero_script_twice_differs:
  "hero_script (hero_page [Text (js ''FeDXDDXX'')]) =
     Inr (hero_page [Text (js ''Fe''), dx_elem [Text (js ''DX'')], Text (js ''D''),
                     dx_elem [Text (js ''DX'')], Text (js ''X'')]) \<and>
   hero_script (hero_page [Text (js ''Fe''), dx_elem [Text (js ''DX'')], Text (js ''D''),
                     dx_elem [Text (js ''DX'')], Text (js ''X'')]) =
     Inr (hero_page [Text (js ''Fe''), dx_elem [dx_elem [Text (js ''DX'')]], Text (js ''D''),
                     dx_elem [dx_elem [Text (js ''DX'')]], Text (js ''X'')]) \<and>
   hero_page [Text (js ''Fe''), dx_elem [dx_elem [Text (js ''DX'')]], Text (js ''D''),
                     dx_elem [dx_elem [Text (js ''DX'')]], Text (js ''X'')] \<noteq>
   hero_page [Text (js ''Fe''), dx_elem [Text (js ''DX'')], Text (js ''D''),
                     dx_elem [Text (js ''DX'')], Text (js ''X'')]"
  by (simp add: hero_script_def hero_page_def dx_elem_def dom_eval)

text \<open>
  Claim C1 says that the hero script takes its block as a parameter. It takes none: it
  looks the block up in the document and so serves the first hero block only. On a page
  with two equal hero blocks the first is rewritten and the second is left as it was.
\<close>

theorem hero_script_second_block_ignored:
  "hero_script two_hero_page =
     Inr \<lparr>document = Element (js ''main'') []
        [Element (js ''div'') [(js ''class'', js ''hero'')]
           [Element (js ''h1'') [] [Text (js ''Fe''), dx_elem [Text (js ''DX'')]]],
         Element (js ''div'') [(js ''class'', js ''hero'')] [Element (js ''h1'') [] [Text (js ''FeDX'')]]],
      globals = ()\<rparr>"
  by (simp add: hero_script_def two_hero_page_def dx_elem_def dom_eval)

section \<open>Properties of the block decorator patterns\<close>



text \<open>A block of three rows between text nodes: the content of each row arrives in its
  \<^verbatim>\<open>li\<close>.\<close>

theorem decorate_list_sample:
  "decorate_list sample_block = Inr (Element (js ''div'') [(js ''class'', js ''cards'')]
     [Element (js ''ul'') []
        [Element (js ''li'') [] [Element (js ''div'') [] [Text (js ''One'')]],
         Element (js ''li'') [] [Element (js ''div'') []
            [Element (js ''a'') [(js ''href'', js ''/two'')] [Text (js ''Two'')]]],
         Element (js ''li'') [] []]])"
  by (simp add: decorate_list_def sample_block_def children_def createElement_def dom_eval)



section \<open>Properties of the page lifecycle\<close>

lemma ordered_snoc: "ordered H (tr @ [x]) = (ordered H tr \<and> may_emit (H \<union> set tr) (fst x) (snd x))"
  by (induction tr arbitrary: H) auto

lemma tasks_safe_mono: "tasks_safe s H \<Longrightarrow> H \<subseteq> H2 \<Longrightarrow> tasks_safe s H2"
  unfolding tasks_safe_def by (meson order_trans)

lemma exec_loop_inv:
  "safe_proc p (set (trace s)) (now s) \<Longrightarrow> ordered {} (trace s) \<Longrightarrow>
   tasks_safe s (set (trace s) \<union> sync_events (now s) p) \<Longrightarrow> loop_inv (exec p s)"
proof (induction p arbitrary: s)
  case Done
  then show ?case by (simp add: loop_inv_def)
next
  case Throw
  then show ?case by (simp add: loop_inv_def)
next
  case (Emit e k)
  let ?s = "s\<lparr>trace := trace s @ [(now s, e)]\<rparr>"
  have "safe_proc k (set (trace ?s)) (now ?s)" using Emit.prems(1) by simp
  moreover have "ordered {} (trace ?s)" using Emit.prems(1,2) by (simp add: ordered_snoc)
  moreover have "tasks_safe ?s (set (trace ?s) \<union> sync_events (now ?s) k)"
    using Emit.prems(3) by (simp add: tasks_safe_def)
  ultimately show ?case using Emit.IH[of ?s] by simp
next
  case (Await k)
  then show ?case
    by (auto simp: loop_inv_def tasks_safe_def)
next
  case (SetTimeout d cb k)
  let ?s = "s\<lparr>timers := timers s @ [(now s + d, cb)]\<rparr>"
  have "safe_proc k (set (trace ?s)) (now ?s)" using SetTimeout.prems(1) by simp
  moreover have "ordered {} (trace ?s)" using SetTimeout.prems(2) by simp
  moreover have "tasks_safe ?s (set (trace ?s) \<union> sync_events (now ?s) k)"
    using SetTimeout.prems(1,3) by (auto simp: tasks_safe_def)
  ultimately show ?case using SetTimeout.IH(2)[of ?s] by simp
qed

lemma set_remove_nth: "set (remove_nth i xs) \<subseteq> set xs"
  unfolding remove_nth_def by (auto dest: in_set_takeD in_set_dropD)

lemma tasks_safe_remove_timer: "tasks_safe s H \<Longrightarrow> tasks_safe (s\<lparr>timers := remove_nth i (timers s)\<rparr>) H"
  using set_remove_nth[of i "timers s"] unfolding tasks_safe_def by simp blast

lemma tasks_safe_remove_pending: "tasks_safe s H \<Longrightarrow> tasks_safe (s\<lparr>pending := remove_nth i (pending s)\<rparr>) H"
  using set_remove_nth[of i "pending s"] unfolding tasks_safe_def by simp blast

lemma step_loop_inv: "loop_inv s \<Longrightarrow> loop_inv (step c s)"
proof (cases c)
  case (Resume i b)
  assume i: "loop_inv s"
  show ?thesis
  proof (cases "i < length (pending s)")
    case True
    let ?s = "s\<lparr>pending := remove_nth i (pending s)\<rparr>"
    let ?p = "(pending s ! i) b"
    from True have m: "pending s ! i \<in> set (pending s)" by simp
    with i have "safe_proc ?p (set (trace ?s)) (now ?s)"
      by (auto simp: loop_inv_def tasks_safe_def)
    moreover have "ordered {} (trace ?s)" using i by (simp add: loop_inv_def)
    moreover have "tasks_safe ?s (set (trace s))"
      using i by (simp add: loop_inv_def tasks_safe_remove_pending)
    then have "tasks_safe ?s (set (trace ?s) \<union> sync_events (now ?s) ?p)"
      by (rule tasks_safe_mono) simp
    ultimately have "loop_inv (exec ?p ?s)" by (rule exec_loop_inv)
    with True Resume show ?thesis by simp
  next
    case False
    with Resume i show ?thesis by simp
  qed
next
  case (Fire i)
  assume i: "loop_inv s"
  show ?thesis
  proof (cases "i < length (timers s) \<and> fst (timers s ! i) \<le> now s")
    case True
    let ?s = "s\<lparr>timers := remove_nth i (timers s)\<rparr>"
    let ?p = "snd (timers s ! i)"
    from True have m: "timers s ! i \<in> set (timers s)" by simp
    with i True have "safe_proc ?p (set (trace ?s)) (now ?s)"
      by (auto simp: loop_inv_def tasks_safe_def)
    moreover have "ordered {} (trace ?s)" using i by (simp add: loop_inv_def)
    moreover have "tasks_safe ?s (set (trace s))"
      using i by (simp add: loop_inv_def tasks_safe_remove_timer)
    then have "tasks_safe ?s (set (trace ?s) \<union> sync_events (now ?s) ?p)"
      by (rule tasks_safe_mono) simp
    ultimately have "loop_inv (exec ?p ?s)" by (rule exec_loop_inv)
    with True Fire show ?thesis by simp
  next
    case False
    with Fire i show ?thesis by auto
  qed
next
  case (Tick n)
  assume "loop_inv s"
  with Tick show ?thesis by (auto simp: loop_inv_def tasks_safe_def)
qed

lemma run_loop_inv: "loop_inv s \<Longrightarrow> loop_inv (run sched s)"
  unfolding run_def by (induction sched arbitrary: s) (simp_all add: step_loop_inv)

lemma may_emit_Act [simp]: "may_emit H t (Act a)"
  by (simp add: may_emit_def)

lemma safe_proc_lift: "safe_proc (map_proc Act u) H t"
  by (induction u arbitrary: H t) simp_all

lemma safe_proc_seq_lift:
  "(\<And>H' t'. H \<subseteq> H' \<Longrightarrow> t \<le> t' \<Longrightarrow> safe_proc q H' t') \<Longrightarrow> safe_proc (seq (map_proc Act u) q) H t"
proof (induction u arbitrary: H t)
  case (Emit a k)
  have "safe_proc (seq (map_proc Act k) q) (insert (t, Act a) H) t"
    by (rule Emit.IH) (use Emit.prems in auto)
  then show ?case by simp
next
  case (Await k)
  have "safe_proc (seq (map_proc Act (k b)) q) H' t'" if "H \<subseteq> H'" "t \<le> t'" for b H' t'
    by (rule Await.IH) (use that Await.prems in \<open>auto intro: order_trans\<close>)
  then show ?case by simp
next
  case (SetTimeout d cb k)
  have "safe_proc (seq (map_proc Act k) q) H t"
    by (rule SetTimeout.IH(2)) (use SetTimeout.prems in auto)
  then show ?case by (simp add: safe_proc_lift)
qed simp_all

lemma safe_proc_await_call:
  assumes "may_emit H t (Start ph)"
    and "\<And>H' t'. End ph \<in> snd ` H' \<Longrightarrow> safe_proc rest H' t'"
  shows "safe_proc (await_call ph body rest) H t"
proof -
  have "safe_proc (Emit (End ph) (Await (\<lambda>b. rest))) H' t'" for H' t'
  proof -
    have "safe_proc rest H'' t''" if "insert (t', End ph) H' \<subseteq> H''" for H'' t''
      by (rule assms(2)) (use that in force)
    then show ?thesis by (simp add: may_emit_def)
  qed
  then have "safe_proc (seq (map_proc Act body) (Emit (End ph) (Await (\<lambda>b. rest)))) (insert (t, Start ph) H) t"
    by (intro safe_proc_seq_lift)
  with assms(1) show ?thesis by (simp add: await_call_def)
qed

lemma safe_proc_loadDelayed:
  assumes "End Lazy \<in> snd ` H"
  shows "safe_proc (loadDelayed base (Emit HandlerDone Done)) H t"
proof -
  have cb: "may_emit H' t' ImportDelayed"
    if "(t, Start Delayed) \<in> H'" "(t, HandlerDone) \<in> H'" "t + 3000 \<le> t'" for H' t'
    using that by (auto simp: may_emit_def intro: rev_image_eqI)
  have 1: "may_emit H t (Start Delayed)"
    using assms by (simp add: may_emit_def)
  have 2: "may_emit H1 t (LoadCSS u)" "may_emit H1 t (End Delayed)" "may_emit H1 t HandlerDone" for H1 u
    by (simp_all add: may_emit_def)
  show ?thesis
    unfolding loadDelayed_def by (simp add: 1 2) (blast intro: cb)
qed

lemma safe_proc_handler: "safe_proc (handler loadEager loadLazy base) {} 0"
  unfolding handler_def
  by (intro safe_proc_await_call safe_proc_loadDelayed) (auto simp: may_emit_def)

lemma page_load_ordered: "ordered {} (page_load loadEager loadLazy base sched)"
proof -
  let ?s = "\<lparr>now = 0, trace = [], pending = [], timers = []\<rparr> :: 'a event loop"
  have "loop_inv (exec (handler loadEager loadLazy base) ?s)"
    by (rule exec_loop_inv) (simp_all add: safe_proc_handler tasks_safe_def)
  then have "loop_inv (run sched (exec (handler loadEager loadLazy base) ?s))"
    by (rule run_loop_inv)
  then show ?thesis by (simp add: page_load_def loop_inv_def)
qed

lemma ordered_nth:
  "ordered H tr \<Longrightarrow> i < length tr \<Longrightarrow> may_emit (H \<union> set (take i tr)) (fst (tr ! i)) (snd (tr ! i))"
proof (induction tr arbitrary: H i)
  case Nil
  then show ?case by simp
next
  case (Cons x tr)
  show ?case
  proof (cases i)
    case 0
    with Cons.prems show ?thesis by simp
  next
    case (Suc j)
    with Cons.prems have "may_emit (insert x H \<union> set (take j tr)) (fst (tr ! j)) (snd (tr ! j))"
      by (intro Cons.IH) auto
    with Suc show ?thesis by simp
  qed
qed

lemma in_take_nth: "x \<in> set (take i tr) \<Longrightarrow> \<exists>j<i. j < length tr \<and> tr ! j = x"
  by (auto simp: in_set_conv_nth)

lemma exec_trace_prefix: "prefix (trace s) (trace (exec p s))"
proof (induction p arbitrary: s)
  case (Emit e k)
  from Emit[of "s\<lparr>trace := trace s @ [(now s, e)]\<rparr>"]
  have "prefix (trace s @ [(now s, e)]) (trace (exec (Emit e k) s))" by simp
  then show ?case by (rule append_prefixD)
next
  case (SetTimeout d cb k)
  from SetTimeout(2)[of "s\<lparr>timers := timers s @ [(now s + d, cb)]\<rparr>"] show ?case by simp
qed simp_all

lemma step_trace_prefix: "prefix (trace s) (trace (step c s))"
proof (cases c)
  case (Resume i b)
  with exec_trace_prefix[of "s\<lparr>pending := remove_nth i (pending s)\<rparr>"] show ?thesis by simp
next
  case (Fire i)
  with exec_trace_prefix[of "s\<lparr>timers := remove_nth i (timers s)\<rparr>"] show ?thesis by simp
next
  case (Tick n)
  then show ?thesis by simp
qed

lemma run_trace_prefix: "prefix (trace s) (trace (run sched s))"
proof (induction sched arbitrary: s)
  case Nil
  show ?case by (simp add: run_def)
next
  case (Cons c sched)
  have "prefix (trace s) (trace (step c s))" by (rule step_trace_prefix)
  also have "prefix (trace (step c s)) (trace (run sched (step c s)))" by (rule Cons)
  finally show ?case by (simp add: run_def)
qed

lemma page_load_starts:
  "prefix [(0, Start Eager)] (page_load loadEager loadLazy base sched)"
proof -
  let ?s = "\<lparr>now = 0, trace = [], pending = [], timers = []\<rparr> :: 'a event loop"
  let ?s1 = "?s\<lparr>trace := [(0, Start Eager)]\<rparr>"
  let ?k = "seq (map_proc Act loadEager) (Emit (End Eager) (Await (\<lambda>b.
              await_call Lazy loadLazy (loadDelayed base (Emit HandlerDone Done)))))"
  have "exec (handler loadEager loadLazy base) ?s = exec ?k ?s1"
    by (simp add: handler_def await_call_def)
  moreover have "prefix (trace ?s1) (trace (exec ?k ?s1))"
    by (rule exec_trace_prefix)
  moreover have "prefix (trace (exec ?k ?s1)) (trace (run sched (exec ?k ?s1)))"
    by (rule run_trace_prefix)
  ultimately have "prefix [(0, Start Eager)] (trace (run sched (exec (handler loadEager loadLazy base) ?s)))"
    by simp
  then show ?thesis by (simp add: page_load_def)
qed

text \<open>
  Claim C3. Whatever \<^verbatim>\<open>loadEager\<close> and \<^verbatim>\<open>loadLazy\<close> do and whatever the event loop schedules,
  a page load begins with the call of \<^verbatim>\<open>loadEager\<close>; \<^verbatim>\<open>loadLazy\<close> is called only after the
  promise of \<^verbatim>\<open>loadEager\<close> is fulfilled, \<^verbatim>\<open>loadDelayed\<close> only after the promise of
  \<^verbatim>\<open>loadLazy\<close> is fulfilled; the import of \<^verbatim>\<open>delayed.js\<close> happens only after the handler has
  returned, and no sooner than 3000 ms after \<^verbatim>\<open>loadDelayed\<close> was called: it is behind the
  timer, and nothing waits for it.
\<close>

theorem page_load_order:
  fixes loadEager loadLazy :: "'u proc" and codeBasePath :: jsstring and sched :: "choice list"
  defines "tr \<equiv> page_load loadEager loadLazy codeBasePath sched"
  shows "prefix [(0, Start Eager)] tr \<and>
     (\<forall>i<length tr.
        (snd (tr ! i) = Start Lazy \<longrightarrow> (\<exists>j<i. snd (tr ! j) = End Eager)) \<and>
        (snd (tr ! i) = Start Delayed \<longrightarrow> (\<exists>j<i. snd (tr ! j) = End Lazy)) \<and>
        (snd (tr ! i) = ImportDelayed \<longrightarrow>
           (\<exists>j<i. snd (tr ! j) = HandlerDone) \<and>
           (\<exists>j<i. snd (tr ! j) = Start Delayed \<and> fst (tr ! j) + 3000 \<le> fst (tr ! i))))"
proof (intro conjI allI impI)
  show "prefix [(0, Start Eager)] tr"
    unfolding tr_def by (rule page_load_starts)
next
  fix i assume i: "i < length tr"
  have a: "may_emit (set (take i tr)) (fst (tr ! i)) (snd (tr ! i))"
    using ordered_nth[OF page_load_ordered, of i loadEager loadLazy codeBasePath sched] i
    by (simp add: tr_def)
  have e: "\<exists>j<i. snd (tr ! j) = m" if "m \<in> snd ` set (take i tr)" for m
    using that by (auto dest!: in_take_nth)
  have d: "\<exists>j<i. snd (tr ! j) = m \<and> fst (tr ! j) = T" if "(T, m) \<in> set (take i tr)" for m T
    using that by (auto dest!: in_take_nth)
  {
    assume "snd (tr ! i) = Start Lazy"
    with a show "\<exists>j<i. snd (tr ! j) = End Eager"
      by (auto simp: may_emit_def intro: e)
  next
    assume "snd (tr ! i) = Start Delayed"
    with a show "\<exists>j<i. snd (tr ! j) = End Lazy"
      by (auto simp: may_emit_def intro: e)
  next
    assume "snd (tr ! i) = ImportDelayed"
    with a show "\<exists>j<i. snd (tr ! j) = HandlerDone"
      by (auto simp: may_emit_def intro: e)
  next
    assume "snd (tr ! i) = ImportDelayed"
    with a obtain T where "(T, Start Delayed) \<in> set (take i tr)" "T + 3000 \<le> fst (tr ! i)"
      by (auto simp: may_emit_def)
    with d[of T "Start Delayed"] show "\<exists>j<i. snd (tr ! j) = Start Delayed \<and> fst (tr ! j) + 3000 \<le> fst (tr ! i)"
      by auto
  }
qed

lemmas loop_eval = page_load_def run_def handler_def await_call_def loadDelayed_def
  remove_nth_def sample_eager_def sample_lazy_def sample_schedule_def

lemma sample_trace:
  "page_load sample_eager sample_lazy (js ''/base'') sample_schedule =
     [(0, Start Eager), (0, Act ''decorate''), (0, Act ''lcp''), (0, End Eager),
      (0, Start Lazy), (0, Act ''sections''), (0, End Lazy), (10, Act ''late''),
      (10, Start Delayed), (10, LoadCSS (js ''/base/styles/delayed.css'')), (10, End Delayed),
      (10, HandlerDone), (3010, ImportDelayed)]"
  by (simp add: loop_eval js_def)

text \<open>A page load whose phases await, schedule a timer of their own and succeed: the
  trace, and what the order theorem says at its events 4, 8 and 12.\<close>

theorem page_load_order_witness:
  "page_load sample_eager sample_lazy (js ''/base'') sample_schedule =
     [(0, Start Eager), (0, Act ''decorate''), (0, Act ''lcp''), (0, End Eager),
      (0, Start Lazy), (0, Act ''sections''), (0, End Lazy), (10, Act ''late''),
      (10, Start Delayed), (10, LoadCSS (js ''/base/styles/delayed.css'')), (10, End Delayed),
      (10, HandlerDone), (3010, ImportDelayed)] \<and>
   (\<exists>j<4. snd (page_load sample_eager sample_lazy (js ''/base'') sample_schedule ! j) = End Eager) \<and>
   (\<exists>j<8. snd (page_load sample_eager sample_lazy (js ''/base'') sample_schedule ! j) = End Lazy) \<and>
   (\<exists>j<12. snd (page_load sample_eager sample_lazy (js ''/base'') sample_schedule ! j) = HandlerDone) \<and>
   (\<exists>j<12. snd (page_load sample_eager sample_lazy (js ''/base'') sample_schedule ! j) = Start Delayed \<and>
      fst (page_load sample_eager sample_lazy (js ''/base'') sample_schedule ! j) + 3000
        \<le> fst (page_load sample_eager sample_lazy (js ''/base'') sample_schedule ! 12))"
proof -
  let ?tr = "page_load sample_eager sample_lazy (js ''/base'') sample_schedule"
  note o = page_load_order[of sample_eager sample_lazy "js ''/base''" sample_schedule,
      THEN conjunct2, rule_format]
  have l: "4 < length ?tr" "8 < length ?tr" "12 < length ?tr"
    by (simp_all add: sample_trace)
  have s: "snd (?tr ! 4) = Start Lazy" "snd (?tr ! 8) = Start Delayed" "snd (?tr ! 12) = ImportDelayed"
    by (simp_all add: sample_trace)
  from o[OF l(1)] s(1) have 1: "\<exists>j<4. snd (?tr ! j) = End Eager" by blast
  from o[OF l(2)] s(2) have 2: "\<exists>j<8. snd (?tr ! j) = End Lazy" by blast
  from o[OF l(3)] s(3) have 3: "\<exists>j<12. snd (?tr ! j) = HandlerDone"
    and 4: "\<exists>j<12. snd (?tr ! j) = Start Delayed \<and> fst (?tr ! j) + 3000 \<le> fst (?tr ! 12)"
    by blast+
  from sample_trace 1 2 3 4 show ?thesis by blast
qed

section \<open>Properties of \<^verbatim>\<open>toClassName\<close>\<close>






















section \<open>Properties of \<^verbatim>\<open>readBlockConfig\<close>\<close>








end
